theory Spec2Isabelle
  imports Complex_Main "HOL-Library.List_Lexorder" "HOL-Library.Log_Nat" "HOL-Library.Multiset"
begin

section \<open>Python values used by wandb\_eval.py\<close>

text \<open>
  A Python \<open>str\<close> is a sequence of Unicode code points; it is modelled as a list of
  natural numbers, so that \<open>str.strip\<close>, \<open>str.splitlines\<close> and the ordering of
  strings (lexicographic on code points, as \<open>List_Lexorder\<close> gives it) are the ones of
  Python. \<open>str\<close> turns an ASCII literal into such a string.
\<close>

type_synonym pystr = "nat list"

definition str :: "string \<Rightarrow> pystr" where
  "str s = map of_char s"

text \<open>The exceptions the modelled code can raise; a raise is the value \<open>Inl\<close>.\<close>

datatype error =
    ValueError pystr
  | KeyError pystr
  | TypeError
  | OverflowError
  | ZeroDivisionError
  | JSONDecodeError
  | RuntimeError pystr
  | FileNotFoundError pystr

definition ebind :: "error + 'a \<Rightarrow> ('a \<Rightarrow> error + 'b) \<Rightarrow> error + 'b" where
  "ebind m f = (case m of Inl e \<Rightarrow> Inl e | Inr v \<Rightarrow> f v)"

subsection \<open>Floats: IEEE 754 binary64 with round-to-nearest-even\<close>

text \<open>
  A Python \<open>float\<close> is a binary64 number. The finite ones are modelled by their exact
  rational value; every operation computes the exact result and rounds it to the nearest
  binary64 number, ties to the even significand. The sign of zero is not represented (no
  operation of the program distinguishes \<open>-0.0\<close> from \<open>0.0\<close>).
\<close>

datatype pyfloat = Fin rat | PosInf | NegInf | NaN

definition round_half_even :: "rat \<Rightarrow> int" where
  "round_half_even x =
     (let f = \<lfloor>x\<rfloor>; d = x - of_int f
      in if d < 1 / 2 then f else if 1 / 2 < d then f + 1 else if even f then f else f + 1)"

definition pow2 :: "int \<Rightarrow> rat" where
  "pow2 e = (if 0 \<le> e then 2 ^ nat e else 1 / 2 ^ nat (- e))"

text \<open>\<open>ilog2 a\<close> is the binary exponent of \<open>a > 0\<close>: \<open>2 ^ ilog2 a \<le> a < 2 ^ (ilog2 a + 1)\<close>.\<close>

definition ilog2 :: "rat \<Rightarrow> int" where
  "ilog2 a =
     (if 1 \<le> a then int (floorlog 2 (nat \<lfloor>a\<rfloor>)) - 1
      else - int (floorlog 2 (nat (\<lceil>1 / a\<rceil> - 1))))"

text \<open>
  The nearest binary64 number of a rational: 53 significant bits, least exponent
  \<open>-1074\<close> (subnormal numbers included); \<open>None\<close> when the rounded magnitude reaches
  \<open>2 ^ 1024\<close> (overflow).
\<close>

definition to_double :: "rat \<Rightarrow> rat option" where
  "to_double x =
     (if x = 0 then Some 0
      else
        let a = \<bar>x\<bar>;
            q = max (ilog2 a - 52) (- 1074);
            m = round_half_even (a / pow2 q);
            y = of_int m * pow2 q
        in if 2 ^ 1024 \<le> y then None else Some (sgn x * y))"

text \<open>Rounding of a float operation's exact result: overflow gives an infinity.\<close>

definition rnd :: "rat \<Rightarrow> pyfloat" where
  "rnd x = (case to_double x of Some y \<Rightarrow> Fin y | None \<Rightarrow> if 0 < x then PosInf else NegInf)"

text \<open>\<open>float(n)\<close> of an \<open>int\<close>, as the mixed operations apply it: raises OverflowError.\<close>

definition float_of_int :: "int \<Rightarrow> error + pyfloat" where
  "float_of_int n = (case to_double (of_int n) of Some y \<Rightarrow> Inr (Fin y) | None \<Rightarrow> Inl OverflowError)"

text \<open>\<open>a / b\<close> on two \<open>int\<close>s: the correctly rounded quotient.\<close>

definition int_truediv :: "int \<Rightarrow> int \<Rightarrow> error + pyfloat" where
  "int_truediv a b =
     (if b = 0 then Inl ZeroDivisionError
      else case to_double (of_int a / of_int b) of
             Some y \<Rightarrow> Inr (Fin y)
           | None \<Rightarrow> Inl OverflowError)"

fun float_add :: "pyfloat \<Rightarrow> pyfloat \<Rightarrow> pyfloat" where
  "float_add NaN _ = NaN"
| "float_add _ NaN = NaN"
| "float_add (Fin a) (Fin b) = rnd (a + b)"
| "float_add PosInf NegInf = NaN"
| "float_add NegInf PosInf = NaN"
| "float_add PosInf _ = PosInf"
| "float_add NegInf _ = NegInf"
| "float_add (Fin a) PosInf = PosInf"
| "float_add (Fin a) NegInf = NegInf"

fun float_neg :: "pyfloat \<Rightarrow> pyfloat" where
  "float_neg (Fin a) = Fin (- a)"
| "float_neg PosInf = NegInf"
| "float_neg NegInf = PosInf"
| "float_neg NaN = NaN"

fun float_mul :: "pyfloat \<Rightarrow> pyfloat \<Rightarrow> pyfloat" where
  "float_mul NaN _ = NaN"
| "float_mul _ NaN = NaN"
| "float_mul (Fin a) (Fin b) = rnd (a * b)"
| "float_mul (Fin a) y = (if a = 0 then NaN else if 0 < a then y else float_neg y)"
| "float_mul x (Fin b) = (if b = 0 then NaN else if 0 < b then x else float_neg x)"
| "float_mul x y = (if x = y then PosInf else NegInf)"

fun float_truediv :: "pyfloat \<Rightarrow> pyfloat \<Rightarrow> error + pyfloat" where
  "float_truediv x (Fin b) =
     (if b = 0 then Inl ZeroDivisionError
      else case x of
             Fin a \<Rightarrow> Inr (rnd (a / b))
           | NaN \<Rightarrow> Inr NaN
           | _ \<Rightarrow> Inr (if 0 < b then x else float_neg x))"
| "float_truediv NaN _ = Inr NaN"
| "float_truediv _ NaN = Inr NaN"
| "float_truediv (Fin a) _ = Inr (Fin 0)"
| "float_truediv _ _ = Inr NaN"

text \<open>
  \<open>round(x, ndigits)\<close> for a float and \<open>ndigits \<ge> 0\<close>: the exact value of \<open>x\<close> is rounded
  to \<open>ndigits\<close> decimal places, ties to even, and the decimal is converted back to the
  nearest float; an infinity or a NaN is returned unchanged.
\<close>

definition py_round :: "pyfloat \<Rightarrow> nat \<Rightarrow> error + pyfloat" where
  "py_round x ndigits =
     (case x of
        Fin a \<Rightarrow>
          (case to_double (of_int (round_half_even (a * 10 ^ ndigits)) / 10 ^ ndigits) of
             Some y \<Rightarrow> Inr (Fin y)
           | None \<Rightarrow> Inl OverflowError)
      | _ \<Rightarrow> Inr x)"

section \<open>Match records and the summarizer\<close>

text \<open>
  The row dictionaries of \<open>main\<close> (\<open>row_a\<close>, \<open>row_b\<close>) and of \<open>summarize\<close>, with the
  keys of the source as fields (\<open>map\<close>, \<open>round\<close>, \<open>winner\<close> and \<open>cycles\<close> are renamed
  where the name is taken).
\<close>

record match_record =
  match_index :: int
  opponent :: pystr
  map_name :: pystr
  round_idx :: int
  alli_side :: int
  row_winner :: int
  row_cycles :: int
  result :: pystr

record opponent_summary =
  summary_opponent :: pystr
  games :: nat
  wins :: nat
  losses :: nat
  ties :: nat
  win_rate :: pyfloat
  score :: pyfloat
  avg_cycles :: pyfloat

text \<open>
  \<open>by_opp.setdefault(key, []).append(row)\<close> on a dictionary kept as an association list
  in insertion order (the order \<open>by_opp.items()\<close> iterates in).
\<close>

fun setdefault_append ::
  "(pystr \<times> match_record list) list \<Rightarrow> pystr \<Rightarrow> match_record \<Rightarrow> (pystr \<times> match_record list) list"
where
  "setdefault_append [] k row = [(k, [row])]"
| "setdefault_append ((k', items) # rest) k row =
     (if k' = k then (k', items @ [row]) # rest
      else (k', items) # setdefault_append rest k row)"

definition group_by_opp :: "match_record list \<Rightarrow> (pystr \<times> match_record list) list" where
  "group_by_opp rows = foldl (\<lambda>by_opp row. setdefault_append by_opp (opponent row) row) [] rows"

text \<open>The body of the loop over \<open>by_opp.items()\<close>, in the source's order of evaluation.\<close>

definition summary_row :: "pystr \<Rightarrow> match_record list \<Rightarrow> error + opponent_summary" where
  "summary_row opp items =
     (let w = length (filter (\<lambda>r. result r = str ''win'') items);
          l = length (filter (\<lambda>r. result r = str ''loss'') items);
          t = length (filter (\<lambda>r. result r = str ''tie'') items);
          g = length items
      in ebind (int_truediv (sum_list (map row_cycles items)) (int (max g 1))) (\<lambda>avg.
         ebind (int_truediv (int w) (int (max g 1))) (\<lambda>wr.
         ebind (float_of_int (int t)) (\<lambda>tf.
         ebind (float_of_int (int w)) (\<lambda>wf.
         ebind (float_of_int (int (max g 1))) (\<lambda>gf.
         ebind (float_truediv (float_add wf (float_mul (Fin (1 / 2)) tf)) gf) (\<lambda>sc.
         ebind (py_round wr 4) (\<lambda>wr4.
         ebind (py_round sc 4) (\<lambda>sc4.
         ebind (py_round avg 2) (\<lambda>avg2.
           Inr \<lparr>summary_opponent = opp, games = g, wins = w, losses = l, ties = t,
                win_rate = wr4, score = sc4, avg_cycles = avg2\<rparr>))))))))))"

fun summary_rows :: "(pystr \<times> match_record list) list \<Rightarrow> error + opponent_summary list" where
  "summary_rows [] = Inr []"
| "summary_rows ((opp, items) # rest) =
     ebind (summary_row opp items) (\<lambda>s.
     ebind (summary_rows rest) (\<lambda>ss. Inr (s # ss)))"

definition summarize :: "match_record list \<Rightarrow> error + opponent_summary list" where
  "summarize rows =
     ebind (summary_rows (group_by_opp rows)) (\<lambda>summary. Inr (sort_key summary_opponent summary))"

section \<open>The match scheduler of main\<close>

record match_result =
  winner :: int
  cycles :: int
  game_over :: bool

text \<open>A resolved map path, with \<open>Path.name\<close> (its final component).\<close>

record map_path =
  path_str :: pystr
  name :: pystr

definition BENCHMARKS :: "(pystr \<times> pystr) list" where
  "BENCHMARKS =
     [(str ''random'', str ''ai.RandomAI''),
      (str ''worker_rush'', str ''ai.abstraction.WorkerRush''),
      (str ''light_rush'', str ''ai.abstraction.LightRush''),
      (str ''naive_mcts'', str ''ai.mcts.naivemcts.NaiveMCTS''),
      (str ''mayari'', str ''mayariBot.mayari''),
      (str ''coac'', str ''ai.coac.CoacAI'')]"

definition outcome_a :: "int \<Rightarrow> pystr" where
  "outcome_a winner_a = (if winner_a = 0 then str ''win'' else if winner_a = 1 then str ''loss'' else str ''tie'')"

definition outcome_b :: "int \<Rightarrow> pystr" where
  "outcome_b winner_b = (if winner_b = 1 then str ''win'' else if winner_b = 0 then str ''loss'' else str ''tie'')"

definition result_score :: "pystr \<Rightarrow> int" where
  "result_score outcome = (if outcome = str ''win'' then 1 else if outcome = str ''tie'' then 0 else - 1)"

text \<open>
  The effects the scheduler has on the outside: a match invocation (map, ai1, ai2) and the
  calls of the tracking service.
\<close>

record log_entry =
  log_index :: int
  log_opponent :: pystr
  log_map :: pystr
  log_alli_side :: int
  log_cycles :: int
  log_result_score :: int

datatype event =
    RunMatch map_path pystr pystr
  | WandbInit "pystr list"
  | WandbLog log_entry
  | WandbLogTables "match_record list" "opponent_summary list"
  | WandbFinish

record sched_state =
  all_rows :: "match_record list"
  next_index :: int
  trace :: "event list"

text \<open>
  \<open>run_match\<close> is a subprocess: the scheduler takes it as a function of the number of
  matches run so far, the map and the two agent classes.
\<close>

type_synonym runner = "nat \<Rightarrow> map_path \<Rightarrow> pystr \<Rightarrow> pystr \<Rightarrow> error + match_result"

definition invocations :: "sched_state \<Rightarrow> nat" where
  "invocations st = length (filter (\<lambda>e. case e of RunMatch _ _ _ \<Rightarrow> True | _ \<Rightarrow> False) (trace st))"

text \<open>One match: the invocation, the row, the log call and the counter (lines 378 to 412
  for side 0, lines 414 to 448 for side 1). A failure keeps the state it happened in.\<close>

definition play_match ::
  "runner \<Rightarrow> pystr \<Rightarrow> pystr \<Rightarrow> pystr \<Rightarrow> map_path \<Rightarrow> int \<Rightarrow> int \<Rightarrow> sched_state
   \<Rightarrow> (error \<times> sched_state) + sched_state"
where
  "play_match rm bot_cls opp_key opp_class mp rnd_i side st =
     (let ai1 = (if side = 0 then bot_cls else opp_class);
          ai2 = (if side = 0 then opp_class else bot_cls);
          st1 = st\<lparr>trace := trace st @ [RunMatch mp ai1 ai2]\<rparr>
      in case rm (invocations st) mp ai1 ai2 of
           Inl e \<Rightarrow> Inl (e, st1)
         | Inr res \<Rightarrow>
             (let w = winner res;
                  outcome = (if side = 0 then outcome_a w else outcome_b w);
                  row = \<lparr>match_index = next_index st, opponent = opp_key, map_name = name mp,
                         round_idx = rnd_i, alli_side = side, row_winner = w,
                         row_cycles = cycles res, result = outcome\<rparr>;
                  entry = \<lparr>log_index = next_index st, log_opponent = opp_key, log_map = name mp,
                           log_alli_side = side, log_cycles = cycles res,
                           log_result_score = result_score outcome\<rparr>
              in Inr (st1\<lparr>all_rows := all_rows st @ [row],
                          trace := trace st1 @ [WandbLog entry],
                          next_index := next_index st + 1\<rparr>)))"

definition play_round ::
  "runner \<Rightarrow> pystr \<Rightarrow> pystr \<Rightarrow> pystr \<Rightarrow> map_path \<Rightarrow> int \<Rightarrow> sched_state
   \<Rightarrow> (error \<times> sched_state) + sched_state"
where
  "play_round rm bot_cls opp_key opp_class mp rnd_i st =
     (case play_match rm bot_cls opp_key opp_class mp rnd_i 0 st of
        Inl f \<Rightarrow> Inl f
      | Inr st' \<Rightarrow> play_match rm bot_cls opp_key opp_class mp rnd_i 1 st')"

fun play_rounds ::
  "runner \<Rightarrow> pystr \<Rightarrow> pystr \<Rightarrow> pystr \<Rightarrow> map_path \<Rightarrow> int list \<Rightarrow> sched_state
   \<Rightarrow> (error \<times> sched_state) + sched_state"
where
  "play_rounds rm bot_cls opp_key opp_class mp [] st = Inr st"
| "play_rounds rm bot_cls opp_key opp_class mp (r # rs) st =
     (case play_round rm bot_cls opp_key opp_class mp r st of
        Inl f \<Rightarrow> Inl f
      | Inr st' \<Rightarrow> play_rounds rm bot_cls opp_key opp_class mp rs st')"

text \<open>\<open>range(rounds)\<close>: empty when \<open>rounds \<le> 0\<close>.\<close>

definition py_range :: "int \<Rightarrow> int list" where
  "py_range n = map int [0..<nat n]"

fun play_maps ::
  "runner \<Rightarrow> pystr \<Rightarrow> pystr \<Rightarrow> pystr \<Rightarrow> map_path list \<Rightarrow> int \<Rightarrow> sched_state
   \<Rightarrow> (error \<times> sched_state) + sched_state"
where
  "play_maps rm bot_cls opp_key opp_class [] rounds st = Inr st"
| "play_maps rm bot_cls opp_key opp_class (mp # mps) rounds st =
     (case play_rounds rm bot_cls opp_key opp_class mp (py_range rounds) st of
        Inl f \<Rightarrow> Inl f
      | Inr st' \<Rightarrow> play_maps rm bot_cls opp_key opp_class mps rounds st')"

text \<open>The loop over \<open>selected_keys\<close>; \<open>BENCHMARKS[opp_key]\<close> raises KeyError on a missing key.\<close>

fun play_opponents ::
  "runner \<Rightarrow> pystr \<Rightarrow> pystr list \<Rightarrow> map_path list \<Rightarrow> int \<Rightarrow> sched_state
   \<Rightarrow> (error \<times> sched_state) + sched_state"
where
  "play_opponents rm bot_cls [] map_paths rounds st = Inr st"
| "play_opponents rm bot_cls (opp_key # keys) map_paths rounds st =
     (case map_of BENCHMARKS opp_key of
        None \<Rightarrow> Inl (KeyError opp_key, st)
      | Some opp_class \<Rightarrow>
          (case play_maps rm bot_cls opp_key opp_class map_paths rounds st of
             Inl f \<Rightarrow> Inl f
           | Inr st' \<Rightarrow> play_opponents rm bot_cls keys map_paths rounds st'))"

section \<open>Building the bot archive\<close>








section \<open>Auxiliary notions for the properties\<close>



definition init_state :: sched_state where
  "init_state = \<lparr>all_rows = [], next_index = 0, trace = []\<rparr>"

definition outcome_state :: "(error \<times> sched_state) + sched_state \<Rightarrow> sched_state" where
  "outcome_state x = (case x of Inl (e, s) \<Rightarrow> s | Inr s \<Rightarrow> s)"

definition example_map :: map_path where
  "example_map = \<lparr>path_str = str ''maps/16x16/basesWorkers16x16.xml'', name = str ''basesWorkers16x16.xml''\<rparr>"

definition candidate_wins :: runner where
  "candidate_wins n mp ai1 ai2 =
     Inr \<lparr>winner = (if ai1 = str ''alliBot.alli'' then 0 else 1), cycles = 340, game_over = True\<rparr>"

definition example_row0 :: match_record where
  "example_row0 = \<lparr>match_index = 0, opponent = str ''random'', map_name = str ''basesWorkers16x16.xml'',
      round_idx = 0, alli_side = 0, row_winner = 0, row_cycles = 340, result = str ''win''\<rparr>"

type_synonym slot = "pystr \<times> map_path \<times> int \<times> int"

definition schedule :: "pystr list \<Rightarrow> map_path list \<Rightarrow> int \<Rightarrow> slot list" where
  "schedule keys mps rounds = [(k, mp, r, side). k \<leftarrow> keys, mp \<leftarrow> mps, r \<leftarrow> py_range rounds, side \<leftarrow> [0, 1]]"

definition slot_row :: "slot \<Rightarrow> pystr \<times> pystr \<times> int \<times> int" where
  "slot_row s = (case s of (k, mp, r, side) \<Rightarrow> (k, name mp, r, side))"

definition row_slot :: "match_record \<Rightarrow> pystr \<times> pystr \<times> int \<times> int" where
  "row_slot r = (opponent r, map_name r, round_idx r, alli_side r)"

definition slot_run :: "pystr \<Rightarrow> slot \<Rightarrow> event" where
  "slot_run bc s =
     (case s of (k, mp, r, side) \<Rightarrow>
        (case map_of BENCHMARKS k of
           None \<Rightarrow> RunMatch mp bc bc
         | Some c \<Rightarrow> if side = 0 then RunMatch mp bc c else RunMatch mp c bc))"

definition is_run :: "event \<Rightarrow> bool" where
  "is_run e = (case e of RunMatch _ _ _ \<Rightarrow> True | _ \<Rightarrow> False)"

definition appended :: "pystr \<Rightarrow> sched_state \<Rightarrow> sched_state \<Rightarrow> slot list \<Rightarrow> bool" where
  "appended bc st st' ks =
     (\<exists>new. all_rows st' = all_rows st @ new \<and>
        map row_slot new = map slot_row ks \<and>
        map match_index new = map (\<lambda>i. next_index st + int i) [0..<length ks] \<and>
        next_index st' = next_index st + int (length ks) \<and>
        filter is_run (trace st') = filter is_run (trace st) @ map (slot_run bc) ks)"


definition example_rows :: "match_record list" where
  "example_rows = [example_row0, example_row0\<lparr>match_index := 1, alli_side := 1, row_winner := 1\<rparr>]"

definition example_summary :: opponent_summary where
  "example_summary = \<lparr>summary_opponent = str ''random'', games = 2, wins = 2, losses = 0, ties = 0,
     win_rate = Fin 1, score = Fin 1, avg_cycles = Fin 340\<rparr>"

definition example_rows4 :: "match_record list" where
  "example_rows4 =
     [example_row0,
      example_row0\<lparr>match_index := 1, alli_side := 1, row_winner := 1\<rparr>,
      example_row0\<lparr>match_index := 2, round_idx := 1\<rparr>,
      example_row0\<lparr>match_index := 3, round_idx := 1, alli_side := 1, row_winner := 1\<rparr>]"

definition example_summary4 :: opponent_summary where
  "example_summary4 = \<lparr>summary_opponent = str ''random'', games = 4, wins = 4, losses = 0, ties = 0,
     win_rate = Fin 1, score = Fin 1, avg_cycles = Fin 340\<rparr>"

definition example_row_coac :: match_record where
  "example_row_coac = example_row0\<lparr>match_index := 1, opponent := str ''coac'', row_winner := 1,
      row_cycles := 5000, result := str ''loss''\<rparr>"

definition example_summary_random :: opponent_summary where
  "example_summary_random = \<lparr>summary_opponent = str ''random'', games = 1, wins = 1, losses = 0,
     ties = 0, win_rate = Fin 1, score = Fin 1, avg_cycles = Fin 340\<rparr>"

definition example_summary_coac :: opponent_summary where
  "example_summary_coac = \<lparr>summary_opponent = str ''coac'', games = 1, wins = 0, losses = 1,
     ties = 0, win_rate = Fin 0, score = Fin 0, avg_cycles = Fin 5000\<rparr>"

definition run_post ::
  "(sched_state \<Rightarrow> bool) \<Rightarrow> (sched_state \<Rightarrow> bool) \<Rightarrow> (error \<times> sched_state) + sched_state \<Rightarrow> bool"
where
  "run_post R Q x = (case x of Inl f \<Rightarrow> R (snd f) | Inr s \<Rightarrow> Q s)"

text \<open>The invocation a record was made from: its number, map, agent order and result.\<close>

definition made_from :: "runner \<Rightarrow> pystr \<Rightarrow> map_path list \<Rightarrow> match_record \<Rightarrow> map_path \<Rightarrow> pystr \<Rightarrow> match_result \<Rightarrow> bool" where
  "made_from rm bc mps r mp c res =
     (mp \<in> set mps \<and> map_of BENCHMARKS (opponent r) = Some c \<and> map_name r = name mp \<and>
      0 \<le> match_index r \<and>
      rm (nat (match_index r)) mp (if alli_side r = 0 then bc else c) (if alli_side r = 0 then c else bc)
        = Inr res \<and>
      row_winner r = winner res \<and> row_cycles r = cycles res \<and>
      (alli_side r = 0 \<or> alli_side r = 1) \<and>
      result r = (if alli_side r = 0 then outcome_a (winner res) else outcome_b (winner res)))"

section \<open>Properties of the scheduler\<close>

lemma invocations_snoc_run [simp]:
  "invocations (st\<lparr>trace := trace st @ [RunMatch mp a b]\<rparr>) = Suc (invocations st)"
  by (simp add: invocations_def)

lemma str_neq [simp]:
  "str ''win'' \<noteq> str ''loss''" "str ''win'' \<noteq> str ''tie''" "str ''loss'' \<noteq> str ''tie''"
  "str ''loss'' \<noteq> str ''win''" "str ''tie'' \<noteq> str ''win''" "str ''tie'' \<noteq> str ''loss''"
  by (simp_all add: str_def)

lemma example_run:
  "all_rows (outcome_state (play_opponents candidate_wins (str ''alliBot.alli'') [str ''random''] [example_map] 1 init_state))
   = [example_row0, example_row0\<lparr>match_index := 1, alli_side := 1, row_winner := 1\<rparr>]"
  by (simp add: BENCHMARKS_def py_range_def play_round_def play_match_def Let_def outcome_state_def init_state_def
     candidate_wins_def outcome_a_def outcome_b_def result_score_def example_map_def invocations_def example_row0_def str_def)

lemma play_round_post:
  assumes step: "\<And>side s. side = 0 \<or> side = 1 \<Longrightarrow> Q s \<Longrightarrow>
      run_post R Q (play_match rm bc k c mp r side s)"
    and "Q st"
  shows "run_post R Q (play_round rm bc k c mp r st)"
proof (cases "play_match rm bc k c mp r 0 st")
  case (Inl f)
  with step[of 0, OF _ \<open>Q st\<close>] show ?thesis
    by (simp add: play_round_def run_post_def)
next
  case (Inr st')
  with step[of 0, OF _ \<open>Q st\<close>] have "Q st'" by (simp add: run_post_def)
  from step[of 1, OF _ this] Inr show ?thesis
    by (simp add: play_round_def)
qed

lemma play_rounds_post:
  assumes step: "\<And>r side s. side = 0 \<or> side = 1 \<Longrightarrow> Q s \<Longrightarrow>
      run_post R Q (play_match rm bc k c mp r side s)"
    and "Q st" and weak: "\<And>s. Q s \<Longrightarrow> R s"
  shows "run_post R Q (play_rounds rm bc k c mp rs st)"
  using \<open>Q st\<close>
proof (induction rs arbitrary: st)
  case Nil
  then show ?case by (simp add: run_post_def)
next
  case (Cons r rs)
  have q: "run_post R Q (play_round rm bc k c mp r st)"
    by (rule play_round_post) (use step Cons.prems in auto)
  show ?case
  proof (cases "play_round rm bc k c mp r st")
    case (Inl f)
    with q show ?thesis by (simp add: run_post_def)
  next
    case (Inr st')
    with q have "Q st'" by (simp add: run_post_def)
    from Cons.IH[OF this] Inr show ?thesis by simp
  qed
qed

lemma play_maps_post:
  assumes step: "\<And>mp r side s. mp \<in> set ms \<Longrightarrow> side = 0 \<or> side = 1 \<Longrightarrow> Q s \<Longrightarrow>
      run_post R Q (play_match rm bc k c mp r side s)"
    and "Q st" and weak: "\<And>s. Q s \<Longrightarrow> R s" and "set mps \<subseteq> set ms"
  shows "run_post R Q (play_maps rm bc k c mps rounds st)"
  using \<open>Q st\<close> \<open>set mps \<subseteq> set ms\<close>
proof (induction mps arbitrary: st)
  case Nil
  then show ?case by (simp add: run_post_def)
next
  case (Cons mp mps)
  then have m: "mp \<in> set ms" by simp
  have q: "run_post R Q (play_rounds rm bc k c mp (py_range rounds) st)"
    by (rule play_rounds_post) (use step[OF m] Cons.prems weak in auto)
  show ?case
  proof (cases "play_rounds rm bc k c mp (py_range rounds) st")
    case (Inl f)
    with q show ?thesis by (simp add: run_post_def)
  next
    case (Inr st')
    with q have "Q st'" by (simp add: run_post_def)
    from Cons.IH[OF this] Cons.prems Inr show ?thesis by simp
  qed
qed

lemma play_opponents_post:
  assumes step: "\<And>k c mp r side s. map_of BENCHMARKS k = Some c \<Longrightarrow> mp \<in> set mps \<Longrightarrow>
      side = 0 \<or> side = 1 \<Longrightarrow> Q s \<Longrightarrow> run_post R Q (play_match rm bc k c mp r side s)"
    and "Q st" and weak: "\<And>s. Q s \<Longrightarrow> R s"
  shows "run_post R Q (play_opponents rm bc keys mps rounds st)"
  using \<open>Q st\<close>
proof (induction keys arbitrary: st)
  case Nil
  then show ?case by (simp add: run_post_def)
next
  case (Cons k keys)
  show ?case
  proof (cases "map_of BENCHMARKS k")
    case None
    with weak[OF Cons.prems] show ?thesis by (simp add: run_post_def)
  next
    case (Some c)
    have q: "run_post R Q (play_maps rm bc k c mps rounds st)"
      by (rule play_maps_post[where ms = mps]) (use step[OF Some] Cons.prems weak in auto)
    show ?thesis
    proof (cases "play_maps rm bc k c mps rounds st")
      case (Inl f)
      with q Some show ?thesis by (simp add: run_post_def)
    next
      case (Inr st')
      with q have "Q st'" by (simp add: run_post_def)
      from Cons.IH[OF this] Inr Some show ?thesis by simp
    qed
  qed
qed

lemma invocations_snoc_log [simp]:
  "invocations (st\<lparr>trace := trace st @ [WandbLog e]\<rparr>) = invocations st"
  by (simp add: invocations_def)

lemma play_match_made_from:
  assumes c: "map_of BENCHMARKS k = Some c" and mp: "mp \<in> set mps" and side: "side = 0 \<or> side = 1"
    and idx: "next_index s = int (invocations s)"
    and rows: "\<forall>r \<in> set (all_rows s). \<exists>mp c res. made_from rm bc mps r mp c res"
  shows "run_post (\<lambda>s. \<forall>r \<in> set (all_rows s). \<exists>mp c res. made_from rm bc mps r mp c res)
      (\<lambda>s. next_index s = int (invocations s) \<and>
           (\<forall>r \<in> set (all_rows s). \<exists>mp c res. made_from rm bc mps r mp c res))
      (play_match rm bc k c mp r side s)"
proof (cases "rm (invocations s) mp (if side = 0 then bc else c) (if side = 0 then c else bc)")
  case (Inl e)
  with rows show ?thesis by (simp add: play_match_def Let_def run_post_def)
next
  case (Inr res)
  define row where "row = \<lparr>match_index = next_index s, opponent = k, map_name = name mp,
     round_idx = r, alli_side = side, row_winner = winner res, row_cycles = cycles res,
     result = (if side = 0 then outcome_a (winner res) else outcome_b (winner res))\<rparr>"
  have "made_from rm bc mps row mp c res"
    using c mp side idx Inr by (auto simp: made_from_def row_def)
  then have new: "\<exists>mp c res. made_from rm bc mps row mp c res" by blast
  obtain st' where st': "play_match rm bc k c mp r side s = Inr st'"
    "all_rows st' = all_rows s @ [row]" "next_index st' = next_index s + 1"
    "invocations st' = Suc (invocations s)"
    using Inr by (simp add: play_match_def Let_def row_def invocations_def)
  with rows new idx show ?thesis by (auto simp: run_post_def)
qed

lemma scheduler_rows_made_from:
  assumes "r \<in> set (all_rows (outcome_state (play_opponents rm bc keys mps rounds init_state)))"
  shows "\<exists>mp c res. made_from rm bc mps r mp c res"
proof -
  let ?R = "\<lambda>s. \<forall>r \<in> set (all_rows s). \<exists>mp c res. made_from rm bc mps r mp c res"
  let ?Q = "\<lambda>s. next_index s = int (invocations s) \<and> ?R s"
  have "run_post ?R ?Q (play_opponents rm bc keys mps rounds init_state)"
  proof (rule play_opponents_post)
    show "?Q init_state" by (simp add: init_state_def invocations_def)
  next
    fix k c mp rd and side :: int and s
    assume "map_of BENCHMARKS k = Some c" "mp \<in> set mps" "side = 0 \<or> side = 1" "?Q s"
    then show "run_post ?R ?Q (play_match rm bc k c mp rd side s)"
      using play_match_made_from[of k c mp mps side s rm bc rd] by blast
  qed simp
  then have "?R (outcome_state (play_opponents rm bc keys mps rounds init_state))"
    by (auto simp: run_post_def outcome_state_def split: sum.splits prod.splits)
  with assms show ?thesis by blast
qed

text \<open>
  Claim C4. Every record the scheduler creates comes from one match invocation: the
  invocation numbered by the record's \<open>match_index\<close>, on a map of the list with the
  record's map name, with the candidate as first agent when the record's side is 0 and as
  second agent when it is 1. The record's winner and cycles are the ones that invocation
  returned, and its result classifies the returned winner from the candidate's
  perspective: on side 0 win exactly for winner 0, loss exactly for winner 1 and tie for
  every other winner; on side 1 win exactly for winner 1, loss exactly for winner 0 and
  tie otherwise. This holds for the records of a run that completes and for those gathered
  before a failing match.
\<close>

theorem outcome_classification:
  assumes "r \<in> set (all_rows (outcome_state (play_opponents rm bc keys mps rounds init_state)))"
  shows "\<exists>mp c res.
     mp \<in> set mps \<and> map_of BENCHMARKS (opponent r) = Some c \<and> map_name r = name mp \<and>
     0 \<le> match_index r \<and>
     rm (nat (match_index r)) mp (if alli_side r = 0 then bc else c) (if alli_side r = 0 then c else bc)
       = Inr res \<and>
     row_winner r = winner res \<and> row_cycles r = cycles res \<and>
     (alli_side r = 0 \<or> alli_side r = 1) \<and>
     (alli_side r = 0 \<longrightarrow>
        (result r = str ''win'' \<longleftrightarrow> winner res = 0) \<and>
        (result r = str ''loss'' \<longleftrightarrow> winner res = 1) \<and>
        (result r = str ''tie'' \<longleftrightarrow> winner res \<noteq> 0 \<and> winner res \<noteq> 1)) \<and>
     (alli_side r = 1 \<longrightarrow>
        (result r = str ''win'' \<longleftrightarrow> winner res = 1) \<and>
        (result r = str ''loss'' \<longleftrightarrow> winner res = 0) \<and>
        (result r = str ''tie'' \<longleftrightarrow> winner res \<noteq> 0 \<and> winner res \<noteq> 1))"
proof -
  from scheduler_rows_made_from[OF assms] obtain mp c res where m: "made_from rm bc mps r mp c res"
    by blast
  then have cls: "result r = (if alli_side r = 0 then outcome_a (winner res) else outcome_b (winner res))"
    and side: "alli_side r = 0 \<or> alli_side r = 1"
    by (simp_all add: made_from_def)
  have a: "(result r = str ''win'' \<longleftrightarrow> winner res = 0) \<and>
        (result r = str ''loss'' \<longleftrightarrow> winner res = 1) \<and>
        (result r = str ''tie'' \<longleftrightarrow> winner res \<noteq> 0 \<and> winner res \<noteq> 1)" if "alli_side r = 0"
    using cls that by (auto simp: outcome_a_def split: if_splits)
  have b: "(result r = str ''win'' \<longleftrightarrow> winner res = 1) \<and>
        (result r = str ''loss'' \<longleftrightarrow> winner res = 0) \<and>
        (result r = str ''tie'' \<longleftrightarrow> winner res \<noteq> 0 \<and> winner res \<noteq> 1)" if "alli_side r = 1"
    using cls that by (auto simp: outcome_b_def split: if_splits)
  from m a b show ?thesis unfolding made_from_def by blast
qed

theorem outcome_classification_witness:
  "example_row0 \<in> set (all_rows (outcome_state
       (play_opponents candidate_wins (str ''alliBot.alli'') [str ''random''] [example_map] 1 init_state))) \<and>
   candidate_wins (nat (match_index example_row0)) example_map (str ''alliBot.alli'') (str ''ai.RandomAI'')
     = Inr \<lparr>winner = 0, cycles = 340, game_over = True\<rparr> \<and>
   alli_side example_row0 = 0 \<and> row_winner example_row0 = 0 \<and> result example_row0 = str ''win''"
proof -
  have m: "example_row0 \<in> set (all_rows (outcome_state
       (play_opponents candidate_wins (str ''alliBot.alli'') [str ''random''] [example_map] 1 init_state)))"
    unfolding example_run by simp
  have s: "alli_side example_row0 = 0" "row_winner example_row0 = 0" "result example_row0 = str ''win''"
    by (simp_all add: example_row0_def)
  have c: "candidate_wins (nat (match_index example_row0)) example_map (str ''alliBot.alli'') (str ''ai.RandomAI'')
     = Inr \<lparr>winner = 0, cycles = 340, game_over = True\<rparr>"
    by (simp add: candidate_wins_def)
  from outcome_classification[OF m] m s c show ?thesis by simp
qed

lemma appended_refl: "appended bc st st []"
  by (simp add: appended_def)

lemma shifted_upt: "map (\<lambda>i. n + int i) [0..<a] @ map (\<lambda>i. n + int a + int i) [0..<b]
    = map (\<lambda>i. n + int i) [0..<a + b]"
  by (induction b) simp_all

lemma appended_trans:
  assumes "appended bc st st' ks" "appended bc st' st'' ks'"
  shows "appended bc st st'' (ks @ ks')"
proof -
  from assms(1) obtain new where n: "all_rows st' = all_rows st @ new" "map row_slot new = map slot_row ks"
    "map match_index new = map (\<lambda>i. next_index st + int i) [0..<length ks]"
    "next_index st' = next_index st + int (length ks)"
    "filter is_run (trace st') = filter is_run (trace st) @ map (slot_run bc) ks"
    unfolding appended_def by blast
  from assms(2) obtain new' where n': "all_rows st'' = all_rows st' @ new'" "map row_slot new' = map slot_row ks'"
    "map match_index new' = map (\<lambda>i. next_index st' + int i) [0..<length ks']"
    "next_index st'' = next_index st' + int (length ks')"
    "filter is_run (trace st'') = filter is_run (trace st') @ map (slot_run bc) ks'"
    unfolding appended_def by blast
  have "map match_index (new @ new') = map (\<lambda>i. next_index st + int i) [0..<length (ks @ ks')]"
    using n(3) n'(3) n(4) shifted_upt[of "next_index st" "length ks" "length ks'"] by simp
  then show ?thesis
    unfolding appended_def using n n'
    by (intro exI[of _ "new @ new'"]) simp
qed

lemma play_match_appended:
  assumes "play_match rm bc k c mp r side st = Inr st'" "map_of BENCHMARKS k = Some c" "side = 0 \<or> side = 1"
  shows "appended bc st st' [(k, mp, r, side)]"
  using assms
  by (auto simp: play_match_def Let_def appended_def row_slot_def slot_row_def slot_run_def is_run_def
      split: sum.splits)

lemma play_round_appended:
  assumes "play_round rm bc k c mp r st = Inr st'" "map_of BENCHMARKS k = Some c"
  shows "appended bc st st' [(k, mp, r, 0), (k, mp, r, 1)]"
proof -
  from assms(1) obtain s1 where a: "play_match rm bc k c mp r 0 st = Inr s1"
    and b: "play_match rm bc k c mp r 1 s1 = Inr st'"
    by (auto simp: play_round_def split: sum.splits)
  from appended_trans[OF play_match_appended[OF a assms(2)] play_match_appended[OF b assms(2)]]
  show ?thesis by simp
qed

lemma play_rounds_appended:
  assumes "play_rounds rm bc k c mp rs st = Inr st'" "map_of BENCHMARKS k = Some c"
  shows "appended bc st st' [(k, mp, r, side). r \<leftarrow> rs, side \<leftarrow> [0, 1]]"
  using assms(1)
proof (induction rs arbitrary: st)
  case Nil
  then show ?case by (simp add: appended_refl)
next
  case (Cons r rs)
  from Cons.prems obtain s1 where a: "play_round rm bc k c mp r st = Inr s1"
    and b: "play_rounds rm bc k c mp rs s1 = Inr st'"
    by (auto split: sum.splits)
  from appended_trans[OF play_round_appended[OF a assms(2)] Cons.IH[OF b]]
  show ?case by simp
qed

lemma play_maps_appended:
  assumes "play_maps rm bc k c mps rounds st = Inr st'" "map_of BENCHMARKS k = Some c"
  shows "appended bc st st' [(k, mp, r, side). mp \<leftarrow> mps, r \<leftarrow> py_range rounds, side \<leftarrow> [0, 1]]"
  using assms(1)
proof (induction mps arbitrary: st)
  case Nil
  then show ?case by (simp add: appended_refl)
next
  case (Cons mp mps)
  from Cons.prems obtain s1 where a: "play_rounds rm bc k c mp (py_range rounds) st = Inr s1"
    and b: "play_maps rm bc k c mps rounds s1 = Inr st'"
    by (auto split: sum.splits)
  from appended_trans[OF play_rounds_appended[OF a assms(2)] Cons.IH[OF b]]
  show ?case by simp
qed

lemma play_opponents_appended:
  assumes "play_opponents rm bc keys mps rounds st = Inr st'"
  shows "appended bc st st' (schedule keys mps rounds)"
  using assms
proof (induction keys arbitrary: st)
  case Nil
  then show ?case by (simp add: appended_refl schedule_def)
next
  case (Cons k keys)
  from Cons.prems obtain c s1 where c: "map_of BENCHMARKS k = Some c"
    and a: "play_maps rm bc k c mps rounds st = Inr s1"
    and b: "play_opponents rm bc keys mps rounds s1 = Inr st'"
    by (auto split: option.splits sum.splits)
  from appended_trans[OF play_maps_appended[OF a c] Cons.IH[OF b]]
  show ?case by (simp add: schedule_def)
qed

lemma round_half_even_le: "x \<le> of_int n \<Longrightarrow> round_half_even x \<le> n"
proof -
  assume a: "x \<le> of_int n"
  show ?thesis
  proof (cases "x = of_int n")
    case True
    then show ?thesis by (simp add: round_half_even_def)
  next
    case False
    with a have "x < of_int n" by simp
    then have "\<lfloor>x\<rfloor> < n" by (simp add: floor_less_iff)
    then show ?thesis by (simp add: round_half_even_def Let_def)
  qed
qed

lemma round_half_even_ge: "of_int n \<le> x \<Longrightarrow> n \<le> round_half_even x"
proof -
  assume "of_int n \<le> x"
  then have "n \<le> \<lfloor>x\<rfloor>" by (simp add: le_floor_iff)
  then show ?thesis by (simp add: round_half_even_def Let_def)
qed

lemma round_half_even_of_int [simp]: "round_half_even (of_int n) = n"
  by (simp add: round_half_even_def)

lemma ilog2_le_0: "0 < a \<Longrightarrow> a \<le> 1 \<Longrightarrow> ilog2 a \<le> 0"
proof (cases "a = 1")
  case True
  have "floorlog 2 1 = 1" by (simp add: floorlog_def)
  with True show ?thesis by (simp add: ilog2_def)
next
  case False
  assume "a \<le> 1"
  with False have "\<not> 1 \<le> a" by simp
  then show ?thesis by (simp add: ilog2_def)
qed

lemma ilog2_le: 
  assumes "0 < a" "a < 2 ^ n" "0 < n"
  shows "ilog2 a \<le> int n - 1"
proof (cases "1 \<le> a")
  case True
  have "\<lfloor>a\<rfloor> < 2 ^ n" using assms(2) by (simp add: floor_less_iff)
  then have "nat \<lfloor>a\<rfloor> < 2 ^ n" by (simp add: nat_less_iff)
  then have "floorlog 2 (nat \<lfloor>a\<rfloor>) \<le> n" by (simp add: floorlog_le_iff)
  with True show ?thesis by (simp add: ilog2_def)
next
  case False
  then have "ilog2 a \<le> 0" by (simp add: ilog2_def)
  with assms(3) show ?thesis by simp
qed

lemma to_double_unit:
  assumes "0 \<le> x" "x \<le> 1"
  shows "\<exists>y. to_double x = Some y \<and> 0 \<le> y \<and> y \<le> 1"
proof (cases "x = 0")
  case True
  then show ?thesis by (simp add: to_double_def)
next
  case False
  with assms have pos: "0 < x" by simp
  define q where "q = max (ilog2 x - 52) (- 1074)"
  define n where "n = nat (- q)"
  have "ilog2 x \<le> 0" using pos assms(2) by (rule ilog2_le_0)
  then have q: "q < 0" by (simp add: q_def)
  then have p: "pow2 q = 1 / 2 ^ n" by (simp add: pow2_def n_def)
  define m where "m = round_half_even (x / pow2 q)"
  have xq: "x / pow2 q = x * 2 ^ n" by (simp add: p)
  have "x * 2 ^ n \<le> of_int (2 ^ n)" using assms(2) by simp
  then have m1: "m \<le> 2 ^ n" unfolding m_def xq by (rule round_half_even_le)
  have "of_int 0 \<le> x * 2 ^ n" using assms(1) by simp
  then have m0: "0 \<le> m" unfolding m_def xq by (rule round_half_even_ge)
  define y where "y = of_int m * pow2 q"
  have y: "y = of_int m / 2 ^ n" by (simp add: y_def p)
  have y1: "y \<le> 1" 
  proof -
    have "(of_int m :: rat) \<le> of_int (2 ^ n)" using m1 by (simp only: of_int_le_iff)
    then show ?thesis by (simp add: y divide_le_eq)
  qed
  have y0: "0 \<le> y" using m0 by (simp add: y)
  have "(1::rat) < 2 ^ 1024" by simp
  with y1 have "\<not> 2 ^ 1024 \<le> y" by linarith
  then have "to_double x = Some y"
    using pos False by (simp add: to_double_def Let_def q_def[symmetric] m_def[symmetric] y_def[symmetric])
  with y0 y1 show ?thesis by simp
qed

lemma to_double_half_int:
  assumes "\<bar>k\<bar> < 2 ^ 53"
  shows "to_double (of_int k / 2) = Some (of_int k / 2)"
proof (cases "k = 0")
  case True
  then show ?thesis by (simp add: to_double_def)
next
  case False
  define x :: rat where "x = of_int k / 2"
  define a :: rat where "a = \<bar>x\<bar>"
  have a: "a = of_int \<bar>k\<bar> / 2" by (simp add: a_def x_def)
  have xn: "x \<noteq> 0" using False by (simp add: x_def)
  then have apos: "0 < a" by (simp add: a_def)
  have "(of_int \<bar>k\<bar> :: rat) < of_int (2 ^ 53)" using assms by (simp only: of_int_less_iff)
  then have alt: "a < 2 ^ 52" by (simp add: a)
  have il: "ilog2 a \<le> 51" using ilog2_le[OF apos alt] by simp
  define q where "q = max (ilog2 a - 52) (- 1074)"
  define n where "n = nat (- q)"
  have q: "q < 0" using il by (simp add: q_def)
  then have n: "0 < n" by (simp add: n_def)
  have p: "pow2 q = 1 / 2 ^ n" using q by (simp add: pow2_def n_def)
  obtain n' where n': "n = Suc n'" using n by (cases n) auto
  have aq: "a / pow2 q = of_int (\<bar>k\<bar> * 2 ^ n')" by (simp add: p a n')
  define m where "m = round_half_even (a / pow2 q)"
  have m: "m = \<bar>k\<bar> * 2 ^ n'" unfolding m_def aq by (rule round_half_even_of_int)
  define y where "y = of_int m * pow2 q"
  have y: "y = a" by (simp add: y_def m p a n')
  have "(2::rat) ^ 52 < 2 ^ 1024" by simp
  with alt y have ny: "\<not> 2 ^ 1024 \<le> y" by linarith
  have "sgn x * a = x" unfolding a_def by (rule sgn_mult_abs)
  with ny y have "to_double x = Some x"
    using xn by (simp add: to_double_def Let_def a_def[symmetric] q_def[symmetric] m_def[symmetric] y_def[symmetric])
  then show ?thesis by (simp add: x_def)
qed

lemma to_double_int:
  assumes "\<bar>k\<bar> < 2 ^ 52"
  shows "to_double (of_int k) = Some (of_int k)"
proof -
  have "\<bar>2 * k\<bar> < 2 ^ 53" using assms by simp
  from to_double_half_int[OF this] show ?thesis by simp
qed

lemma ebind_Inr_iff: "ebind m f = Inr v \<longleftrightarrow> (\<exists>a. m = Inr a \<and> f a = Inr v)"
  by (cases m) (simp_all add: ebind_def)

lemma ebind_Inl_iff: "ebind m f = Inl e \<longleftrightarrow> m = Inl e \<or> (\<exists>a. m = Inr a \<and> f a = Inl e)"
  by (cases m) (simp_all add: ebind_def)

lemma group_by_opp_snoc:
  "group_by_opp (rows @ [r]) = setdefault_append (group_by_opp rows) (opponent r) r"
  by (simp add: group_by_opp_def)

lemma map_of_setdefault_append:
  "map_of (setdefault_append d k r) =
     (map_of d)(k \<mapsto> (case map_of d k of None \<Rightarrow> [r] | Some items \<Rightarrow> items @ [r]))"
  by (induction d k r rule: setdefault_append.induct) auto

lemma keys_setdefault_append:
  "map fst (setdefault_append d k r) = (if k \<in> set (map fst d) then map fst d else map fst d @ [k])"
  by (induction d k r rule: setdefault_append.induct) auto

lemma group_keys:
  "distinct (map fst (group_by_opp rows)) \<and> set (map fst (group_by_opp rows)) = opponent ` set rows"
proof (induction rows rule: rev_induct)
  case Nil
  then show ?case by (simp add: group_by_opp_def)
next
  case (snoc r rows)
  define ks where "ks = map fst (group_by_opp rows)"
  from snoc have d: "distinct ks" and e: "set ks = opponent ` set rows"
    by (simp_all add: ks_def)
  have k: "map fst (group_by_opp (rows @ [r])) = (if opponent r \<in> set ks then ks else ks @ [opponent r])"
    unfolding group_by_opp_snoc keys_setdefault_append ks_def ..
  show ?case
  proof (cases "opponent r \<in> set ks")
    case True
    with k d e show ?thesis by auto
  next
    case False
    with k d e show ?thesis by auto
  qed
qed

lemma map_of_group:
  "map_of (group_by_opp rows) k =
     (if k \<in> opponent ` set rows then Some (filter (\<lambda>r. opponent r = k) rows) else None)"
proof (induction rows rule: rev_induct)
  case Nil
  then show ?case by (simp add: group_by_opp_def)
next
  case (snoc r rows)
  then show ?case
    by (auto simp: group_by_opp_snoc map_of_setdefault_append filter_empty_conv) (metis imageI)
qed

lemma group_member:
  assumes "(k, items) \<in> set (group_by_opp rows)"
  shows "items = filter (\<lambda>r. opponent r = k) rows \<and> k \<in> opponent ` set rows"
proof -
  have "distinct (map fst (group_by_opp rows))" using group_keys by blast
  with assms have "map_of (group_by_opp rows) k = Some items" by simp
  then show ?thesis by (simp add: map_of_group split: if_splits)
qed

lemma summary_rows_Inr:
  "summary_rows groups = Inr summ \<Longrightarrow>
     list_all2 (\<lambda>g s. summary_row (fst g) (snd g) = Inr s) groups summ"
proof (induction groups arbitrary: summ)
  case Nil
  then show ?case by simp
next
  case (Cons g groups)
  obtain k items where g: "g = (k, items)" by (cases g)
  from Cons.prems obtain s ss where "summary_row k items = Inr s" "summary_rows groups = Inr ss" "summ = s # ss"
    by (auto simp: g ebind_Inr_iff)
  with Cons.IH show ?case by (simp add: g)
qed

lemma summarize_member:
  assumes "summarize rows = Inr summ" "s \<in> set summ"
  shows "\<exists>k. k \<in> opponent ` set rows \<and> summary_row k (filter (\<lambda>r. opponent r = k) rows) = Inr s"
proof -
  from assms(1) obtain summary where a: "summary_rows (group_by_opp rows) = Inr summary"
    and b: "summ = sort_key summary_opponent summary"
    by (auto simp: summarize_def ebind_Inr_iff)
  from assms(2) b have "s \<in> set summary" by simp
  then obtain i where i: "i < length summary" "s = summary ! i"
    by (auto simp: in_set_conv_nth)
  from summary_rows_Inr[OF a] i have l: "i < length (group_by_opp rows)"
    and r: "summary_row (fst (group_by_opp rows ! i)) (snd (group_by_opp rows ! i)) = Inr s"
    by (simp_all add: list_all2_conv_all_nth)
  define g where "g = group_by_opp rows ! i"
  from l r have "g \<in> set (group_by_opp rows)" "summary_row (fst g) (snd g) = Inr s"
    by (simp_all add: g_def)
  with group_member[of "fst g" "snd g" rows] show ?thesis by auto
qed

lemma summary_row_fields:
  assumes "summary_row k items = Inr s"
  shows "summary_opponent s = k" "games s = length items"
    "wins s = length (filter (\<lambda>r. result r = str ''win'') items)"
    "losses s = length (filter (\<lambda>r. result r = str ''loss'') items)"
    "ties s = length (filter (\<lambda>r. result r = str ''tie'') items)"
  using assms by (auto simp: summary_row_def Let_def ebind_Inr_iff)

lemma py_round_unit:
  assumes "0 \<le> y" "y \<le> 1"
  shows "\<exists>z. py_round (Fin y) n = Inr (Fin z) \<and> 0 \<le> z \<and> z \<le> 1"
proof -
  define m where "m = round_half_even (y * 10 ^ n)"
  have "of_int 0 \<le> y * 10 ^ n" using assms(1) by simp
  then have m0: "0 \<le> m" unfolding m_def by (rule round_half_even_ge)
  have "y * 10 ^ n \<le> of_int (10 ^ n)" using assms(2) by simp
  then have m1: "m \<le> 10 ^ n" unfolding m_def by (rule round_half_even_le)
  have "(of_int m :: rat) \<le> of_int (10 ^ n)" using m1 by (simp only: of_int_le_iff)
  then have "(of_int m :: rat) / 10 ^ n \<le> 1" by (simp add: divide_le_eq)
  moreover have "0 \<le> (of_int m :: rat) / 10 ^ n" using m0 by simp
  ultimately obtain z where "to_double (of_int m / 10 ^ n) = Some z" "0 \<le> z" "z \<le> 1"
    using to_double_unit by blast
  then show ?thesis by (simp add: py_round_def m_def)
qed

lemma int_truediv_unit:
  assumes "0 \<le> a" "a \<le> b" "0 < b"
  shows "\<exists>y. int_truediv a b = Inr (Fin y) \<and> 0 \<le> y \<and> y \<le> 1"
proof -
  have "(of_int a :: rat) \<le> of_int b" using assms(2) by (simp only: of_int_le_iff)
  then have "(of_int a :: rat) / of_int b \<le> 1" using assms(3) by (simp add: divide_le_eq)
  moreover have "0 \<le> (of_int a :: rat) / of_int b" using assms by simp
  ultimately obtain y where "to_double (of_int a / of_int b) = Some y" "0 \<le> y" "y \<le> 1"
    using to_double_unit by blast
  with assms(3) show ?thesis by (simp add: int_truediv_def)
qed

lemma float_of_int_exact: "\<bar>k\<bar> < 2 ^ 52 \<Longrightarrow> float_of_int k = Inr (Fin (of_int k))"
  by (simp add: float_of_int_def to_double_int)

lemma rnd_half_int: "\<bar>k\<bar> < 2 ^ 53 \<Longrightarrow> rnd (of_int k / 2) = Fin (of_int k / 2)"
  by (simp add: rnd_def to_double_half_int)

lemma score_unit:
  assumes "0 \<le> w" "0 \<le> t" "w + t \<le> g" "0 < g" "g < 2 ^ 52"
  shows "\<exists>y. float_of_int t = Inr (Fin (of_int t)) \<and> float_of_int w = Inr (Fin (of_int w)) \<and>
     float_of_int g = Inr (Fin (of_int g)) \<and>
     float_truediv (float_add (Fin (of_int w)) (float_mul (Fin (1 / 2)) (Fin (of_int t)))) (Fin (of_int g))
       = Inr (Fin y) \<and> 0 \<le> y \<and> y \<le> 1"
proof -
  have t: "float_of_int t = Inr (Fin (of_int t))" using assms by (intro float_of_int_exact) simp
  have w: "float_of_int w = Inr (Fin (of_int w))" using assms by (intro float_of_int_exact) simp
  have g: "float_of_int g = Inr (Fin (of_int g))" using assms by (intro float_of_int_exact) simp
  have "\<bar>t\<bar> < 2 ^ 53" using assms by simp
  from rnd_half_int[OF this] have m: "float_mul (Fin (1 / 2)) (Fin (of_int t)) = Fin (of_int t / 2)"
    by simp
  have "\<bar>2 * w + t\<bar> < 2 ^ 53" using assms by simp
  from rnd_half_int[OF this] have a: "float_add (Fin (of_int w)) (Fin (of_int t / 2)) = Fin (of_int w + of_int t / 2)"
    by (simp add: add_divide_distrib)
  define x :: rat where "x = (of_int w + of_int t / 2) / of_int g"
  have "(of_int w + of_int t / 2 :: rat) \<le> of_int w + of_int t" using assms(2) by simp
  also have "\<dots> = of_int (w + t)" by simp
  also have "\<dots> \<le> of_int g" using assms(3) by (simp only: of_int_le_iff)
  finally have "x \<le> 1" using assms(4) by (simp add: x_def divide_le_eq)
  moreover have "0 \<le> x" using assms by (simp add: x_def)
  ultimately obtain y where y: "to_double x = Some y" "0 \<le> y" "y \<le> 1"
    using to_double_unit by blast
  have "float_truediv (Fin (of_int w + of_int t / 2)) (Fin (of_int g)) = Inr (Fin y)"
    using assms(4) y(1) by (simp add: rnd_def x_def)
  with t w g m a y show ?thesis by simp
qed

lemma result_partition:
  assumes "\<forall>r \<in> set items. result r = str ''win'' \<or> result r = str ''loss'' \<or> result r = str ''tie''"
  shows "length (filter (\<lambda>r. result r = str ''win'') items)
       + length (filter (\<lambda>r. result r = str ''loss'') items)
       + length (filter (\<lambda>r. result r = str ''tie'') items) = length items"
  using assms by (induction items) auto

lemma pow2_pos: "0 < pow2 q"
  by (simp add: pow2_def)

lemma pow2_ilog2_le:
  assumes "1 \<le> a"
  shows "pow2 (ilog2 a) \<le> a"
proof -
  define n where "n = nat \<lfloor>a\<rfloor>"
  have n: "0 < n" using assms by (simp add: n_def)
  have "(2::nat) ^ (floorlog 2 n - 1) \<le> n" using floorlog_bounds[of n 2] n by simp
  then have "(of_nat ((2::nat) ^ (floorlog 2 n - 1)) :: rat) \<le> of_nat n" by (simp only: of_nat_le_iff)
  also have "(of_nat n :: rat) \<le> a" using assms by (simp add: n_def)
  finally have "(of_nat ((2::nat) ^ (floorlog 2 n - 1)) :: rat) \<le> a" .
  then have le: "(2::rat) ^ (floorlog 2 n - 1) \<le> a" by simp
  have "floorlog 2 n \<noteq> 0" using n by (simp add: floorlog_eq_zero_iff)
  then have "ilog2 a = int (floorlog 2 n - 1)" using assms by (simp add: ilog2_def n_def)
  with le show ?thesis by (simp add: pow2_def)
qed

lemma pow2_mono: "p \<le> q \<Longrightarrow> pow2 p \<le> pow2 q"
proof -
  assume pq: "p \<le> q"
  have e: "pow2 z = 2 powi z" for z
    by (simp add: pow2_def power_int_def power_one_over)
  show ?thesis unfolding e using pq by (intro power_int_increasing) simp_all
qed

lemma to_double_ge_1:
  assumes "1 \<le> x" "to_double x = Some y"
  shows "1 \<le> y"
proof -
  define q where "q = max (ilog2 x - 52) (- 1074)"
  define m where "m = round_half_even (x / pow2 q)"
  have x0: "x \<noteq> 0" "\<bar>x\<bar> = x" "sgn x = 1" using assms(1) by simp_all
  have y: "y = of_int m * pow2 q"
    using assms(2) x0 by (simp add: to_double_def Let_def q_def[symmetric] m_def[symmetric] split: if_splits)
  show ?thesis
  proof (cases "q \<le> 0")
    case True
    define n where "n = nat (- q)"
    have p: "pow2 q = 1 / 2 ^ n" using True by (cases "q = 0") (simp_all add: pow2_def n_def)
    have "of_int (2 ^ n) \<le> x * 2 ^ n" using assms(1) by simp
    then have "2 ^ n \<le> m" unfolding m_def p by (intro round_half_even_ge) simp
    then have "(of_int (2 ^ n) :: rat) \<le> of_int m" by (simp only: of_int_le_iff)
    then show ?thesis by (simp add: y p le_divide_eq)
  next
    case False
    then have qq: "q = ilog2 x - 52" "0 < q" by (simp_all add: q_def)
    have "pow2 q \<le> pow2 (ilog2 x)" by (rule pow2_mono) (simp add: qq)
    also have "\<dots> \<le> x" by (rule pow2_ilog2_le[OF assms(1)])
    finally have "of_int 1 \<le> x / pow2 q" using pow2_pos[of q] by (simp add: le_divide_eq)
    then have "1 \<le> m" unfolding m_def by (rule round_half_even_ge)
    then have "(of_int 1 :: rat) \<le> of_int m" by (simp only: of_int_le_iff)
    moreover have "1 \<le> pow2 q" using qq by (simp add: pow2_def)
    ultimately have "1 * 1 \<le> of_int m * pow2 q" by (intro mult_mono) simp_all
    then show ?thesis by (simp add: y)
  qed
qed

lemma int_truediv_error: "int_truediv a b = Inl e \<Longrightarrow> b \<noteq> 0 \<Longrightarrow> e = OverflowError"
  by (auto simp: int_truediv_def split: option.splits)

lemma float_of_int_error: "float_of_int n = Inl e \<Longrightarrow> e = OverflowError"
  by (auto simp: float_of_int_def split: option.splits)

lemma py_round_error: "py_round x n = Inl e \<Longrightarrow> e = OverflowError"
  by (auto simp: py_round_def split: option.splits pyfloat.splits)

lemma float_truediv_error: "float_truediv x y = Inl e \<Longrightarrow> y = Fin 0"
  by (cases x; cases y) (auto split: if_splits)

lemma float_of_pos_int: "float_of_int n = Inr gf \<Longrightarrow> 1 \<le> n \<Longrightarrow> \<exists>y. gf = Fin y \<and> 1 \<le> y"
proof -
  assume a: "float_of_int n = Inr gf" and n: "1 \<le> n"
  from a obtain y where y: "to_double (of_int n) = Some y" "gf = Fin y"
    by (auto simp: float_of_int_def split: option.splits)
  have "(1::rat) \<le> of_int n" using n by simp
  from to_double_ge_1[OF this y(1)] y(2) show ?thesis by simp
qed

lemma divisor_no_error:
  assumes "float_of_int (int (max g 1)) = Inr gf"
  shows "float_truediv x gf \<noteq> Inl e"
proof
  assume "float_truediv x gf = Inl e"
  then have "gf = Fin 0" by (rule float_truediv_error)
  moreover from float_of_pos_int[OF assms] obtain y where "gf = Fin y" "1 \<le> y" by auto
  ultimately show False by simp
qed

lemma summary_row_error:
  assumes "summary_row k items = Inl e"
  shows "e = OverflowError"
proof -
  have nz: "int (max (length items) 1) \<noteq> 0" by simp
  show ?thesis
    using assms nz unfolding summary_row_def Let_def
    by (auto simp: ebind_Inl_iff dest: int_truediv_error float_of_int_error py_round_error
        simp: divisor_no_error)
qed



lemmas to_double_small =
  to_double_int[of 0, simplified] to_double_int[of 1, simplified] to_double_int[of 2, simplified]
  to_double_int[of 340, simplified]

lemma summarize_example_rows: "summarize example_rows = Inr [example_summary]"
  by (simp add: summarize_def group_by_opp_def example_rows_def example_row0_def summary_row_def
      ebind_def int_truediv_def float_of_int_def rnd_def py_round_def to_double_small
      example_summary_def str_def round_half_even_def)





lemma summary_row_parts:
  assumes "summary_row k items = Inr s"
  shows "\<exists>wr sc tf wf gf.
    int_truediv (int (wins s)) (int (max (games s) 1)) = Inr wr \<and>
    py_round wr 4 = Inr (win_rate s) \<and>
    float_of_int (int (ties s)) = Inr tf \<and>
    float_of_int (int (wins s)) = Inr wf \<and>
    float_of_int (int (max (games s) 1)) = Inr gf \<and>
    float_truediv (float_add wf (float_mul (Fin (1 / 2)) tf)) gf = Inr sc \<and>
    py_round sc 4 = Inr (score s)"
  using assms unfolding summary_row_def Let_def
  by (auto simp: ebind_Inr_iff)

text \<open>
  Claim C2. When every record's result is win, loss or tie, every row \<open>summarize\<close>
  produces satisfies \<open>wins + losses + ties = games\<close> and \<open>0 \<le> win_rate \<le> 1\<close>, and
  \<open>0 \<le> score \<le> 1\<close> for every list of fewer than \<open>2 ^ 52\<close> records (all counts are then
  exact as floats).
\<close>

theorem summary_invariants:
  assumes res: "\<forall>r \<in> set rows. result r = str ''win'' \<or> result r = str ''loss'' \<or> result r = str ''tie''"
    and run: "summarize rows = Inr summ"
    and mem: "s \<in> set summ"
  shows "wins s + losses s + ties s = games s \<and>
         (\<exists>wr. win_rate s = Fin wr \<and> 0 \<le> wr \<and> wr \<le> 1) \<and>
         (length rows < 2 ^ 52 \<longrightarrow> (\<exists>sc. score s = Fin sc \<and> 0 \<le> sc \<and> sc \<le> 1))"
proof -
  from summarize_member[OF run mem] obtain k where k: "k \<in> opponent ` set rows"
    "summary_row k (filter (\<lambda>r. opponent r = k) rows) = Inr s" by blast
  define items where "items = filter (\<lambda>r. opponent r = k) rows"
  have ne: "items \<noteq> []" using k(1) by (auto simp: items_def filter_empty_conv)
  have sub: "\<forall>r \<in> set items. result r = str ''win'' \<or> result r = str ''loss'' \<or> result r = str ''tie''"
    using res by (simp add: items_def)
  note f = summary_row_fields[OF k(2)[folded items_def]]
  have sum: "wins s + losses s + ties s = games s"
    using result_partition[OF sub] by (simp add: f)
  obtain a l where "items = a # l" using ne by (cases items) auto
  then have "games s = Suc (length l)" using f(2) by simp
  then have g: "0 < games s" "max (games s) 1 = games s" by simp_all
  have gl: "games s \<le> length rows" by (simp add: f items_def)
  from summary_row_parts[OF k(2)] obtain wr sc tf wf gf where p:
    "int_truediv (int (wins s)) (int (max (games s) 1)) = Inr wr"
    "py_round wr 4 = Inr (win_rate s)"
    "float_of_int (int (ties s)) = Inr tf"
    "float_of_int (int (wins s)) = Inr wf"
    "float_of_int (int (max (games s) 1)) = Inr gf"
    "float_truediv (float_add wf (float_mul (Fin (1 / 2)) tf)) gf = Inr sc"
    "py_round sc 4 = Inr (score s)" by (elim exE conjE) (rule that)
  have "int (wins s) \<le> int (games s)" using sum by simp
  from int_truediv_unit[OF _ this] g p(1) obtain y where y: "wr = Fin y" "0 \<le> y" "y \<le> 1"
    by auto
  from py_round_unit[OF y(2,3), of 4] p(2) y(1)
  have wr: "\<exists>wr. win_rate s = Fin wr \<and> 0 \<le> wr \<and> wr \<le> 1" by auto
  have sc: "\<exists>sc. score s = Fin sc \<and> 0 \<le> sc \<and> sc \<le> 1" if small: "length rows < 2 ^ 52"
  proof -
    have "int (games s) < 2 ^ 52" using gl small by simp
    moreover have "int (wins s) + int (ties s) \<le> int (games s)" using sum by simp
    ultimately obtain z where z:
      "float_of_int (int (ties s)) = Inr (Fin (of_int (int (ties s))))"
      "float_of_int (int (wins s)) = Inr (Fin (of_int (int (wins s))))"
      "float_of_int (int (games s)) = Inr (Fin (of_int (int (games s))))"
      "float_truediv (float_add (Fin (of_int (int (wins s))))
          (float_mul (Fin (1 / 2)) (Fin (of_int (int (ties s)))))) (Fin (of_int (int (games s))))
         = Inr (Fin z)" "0 \<le> z" "z \<le> 1"
      using score_unit[of "int (wins s)" "int (ties s)" "int (games s)"] g(1) by auto
    from p(3,4,5,6) z(1,2,3,4) g(2) have "sc = Fin z" by simp
    with py_round_unit[OF z(5,6), of 4] p(7) show ?thesis by auto
  qed
  from sum wr sc show ?thesis by blast
qed

theorem summary_invariants_witness:
  "map result example_rows = [str ''win'', str ''win''] \<and>
   summarize example_rows = Inr [example_summary] \<and>
   wins example_summary + losses example_summary + ties example_summary = games example_summary \<and>
   length example_rows < 2 ^ 52 \<and>
   win_rate example_summary = Fin 1 \<and> score example_summary = Fin 1"
proof -
  have r: "\<forall>r \<in> set example_rows. result r = str ''win'' \<or> result r = str ''loss'' \<or> result r = str ''tie''"
    by (simp add: example_rows_def example_row0_def)
  have m: "example_summary \<in> set [example_summary]" by simp
  have l: "length example_rows < 2 ^ 52" by (simp add: example_rows_def)
  have e: "map result example_rows = [str ''win'', str ''win'']"
    by (simp add: example_rows_def example_row0_def)
  from summary_invariants[OF r summarize_example_rows m] e l summarize_example_rows
  show ?thesis by (simp add: example_summary_def)
qed

lemma play_match_succeeds:
  assumes "\<forall>n mp a b. \<exists>res. rm n mp a b = Inr res"
  shows "\<exists>st'. play_match rm bc k c mp r side st = Inr st'"
proof -
  obtain res where "rm (invocations st) mp (if side = 0 then bc else c) (if side = 0 then c else bc) = Inr res"
    using assms by blast
  then show ?thesis by (simp add: play_match_def Let_def)
qed

lemma play_round_succeeds:
  assumes "\<forall>n mp a b. \<exists>res. rm n mp a b = Inr res"
  shows "\<exists>st'. play_round rm bc k c mp r st = Inr st'"
proof -
  obtain s1 where "play_match rm bc k c mp r 0 st = Inr s1"
    using play_match_succeeds[OF assms] by blast
  moreover obtain s2 where "play_match rm bc k c mp r 1 s1 = Inr s2"
    using play_match_succeeds[OF assms] by blast
  ultimately show ?thesis by (simp add: play_round_def)
qed

lemma play_rounds_succeeds:
  assumes "\<forall>n mp a b. \<exists>res. rm n mp a b = Inr res"
  shows "\<exists>st'. play_rounds rm bc k c mp rs st = Inr st'"
proof (induction rs arbitrary: st)
  case Nil
  then show ?case by simp
next
  case (Cons r rs)
  obtain s1 where "play_round rm bc k c mp r st = Inr s1"
    using play_round_succeeds[OF assms] by blast
  with Cons.IH[of s1] show ?case by simp
qed

lemma play_maps_succeeds:
  assumes "\<forall>n mp a b. \<exists>res. rm n mp a b = Inr res"
  shows "\<exists>st'. play_maps rm bc k c mps rounds st = Inr st'"
proof (induction mps arbitrary: st)
  case Nil
  then show ?case by simp
next
  case (Cons mp mps)
  obtain s1 where "play_rounds rm bc k c mp (py_range rounds) st = Inr s1"
    using play_rounds_succeeds[OF assms] by blast
  with Cons.IH[of s1] show ?case by simp
qed

lemma play_opponents_succeeds:
  assumes "\<forall>n mp a b. \<exists>res. rm n mp a b = Inr res" "set keys \<subseteq> fst ` set BENCHMARKS"
  shows "\<exists>st'. play_opponents rm bc keys mps rounds st = Inr st'"
  using assms(2)
proof (induction keys arbitrary: st)
  case Nil
  then show ?case by simp
next
  case (Cons k keys)
  from Cons.prems have "k \<in> fst ` set BENCHMARKS" by simp
  then obtain c where c: "map_of BENCHMARKS k = Some c"
    by (metis domD dom_map_of_conv_image_fst)
  obtain s1 where "play_maps rm bc k c mps rounds st = Inr s1"
    using play_maps_succeeds[OF assms(1)] by blast
  with Cons.IH[of s1] Cons.prems c show ?case by simp
qed

lemma schedule_Cons:
  "schedule (k # keys) mps rounds =
     [(k, mp, r, side). mp \<leftarrow> mps, r \<leftarrow> py_range rounds, side \<leftarrow> [0, 1]] @ schedule keys mps rounds"
  by (simp add: schedule_def)

lemma block_length:
  "length [(k, mp, r, side). mp \<leftarrow> mps, r \<leftarrow> py_range rounds, side \<leftarrow> [0::int, 1]]
     = 2 * nat rounds * length mps"
proof -
  have c: "length (concat (map (\<lambda>r. [(k, mp, r, 0::int), (k, mp, r, 1)]) rs)) = 2 * length rs"
    for mp and rs :: "int list"
    by (induction rs) auto
  have l: "length (py_range rounds) = nat rounds" by (simp add: py_range_def)
  show ?thesis by (induction mps) (simp_all add: c l algebra_simps)
qed

lemma block_filter:
  "filter (\<lambda>s. fst s = k') [(k, mp, r, side). mp \<leftarrow> mps, r \<leftarrow> py_range rounds, side \<leftarrow> [0::int, 1]]
     = (if k = k' then [(k, mp, r, side). mp \<leftarrow> mps, r \<leftarrow> py_range rounds, side \<leftarrow> [0, 1]] else [])"
proof -
  have "\<forall>s \<in> set [(k, mp, r, side). mp \<leftarrow> mps, r \<leftarrow> py_range rounds, side \<leftarrow> [0::int, 1]]. fst s = k"
    by auto
  then show ?thesis
    by (metis (mono_tags, lifting) filter_False filter_True)
qed

lemma schedule_count:
  "length (filter (\<lambda>s. fst s = k) (schedule keys mps rounds))
     = 2 * nat rounds * length mps * count_list keys k"
proof (induction keys)
  case Nil
  then show ?case by (simp add: schedule_def)
next
  case (Cons k' keys)
  have b: "length (filter (\<lambda>s. fst s = k)
      [(k', mp, r, side). mp \<leftarrow> mps, r \<leftarrow> py_range rounds, side \<leftarrow> [0::int, 1]])
      = (if k' = k then 2 * nat rounds * length mps else 0)"
    unfolding block_filter by (cases "k' = k") (simp_all only: block_length if_True if_False list.size simp_thms)
  show ?case
    unfolding schedule_Cons filter_append length_append b Cons.IH
    by (simp add: algebra_simps)
qed

lemma rows_count:
  assumes "map row_slot rows = map slot_row sched"
  shows "length (filter (\<lambda>r. opponent r = k) rows) = length (filter (\<lambda>s. fst s = k) sched)"
proof -
  have "length (filter (\<lambda>r. opponent r = k) rows) = length (filter (\<lambda>x. fst x = k) (map row_slot rows))"
    by (simp add: filter_map comp_def row_slot_def)
  also have "\<dots> = length (filter (\<lambda>x. fst x = k) (map slot_row sched))" by (simp add: assms)
  also have "\<dots> = length (filter (\<lambda>s. fst s = k) sched)"
    by (simp add: filter_map comp_def slot_row_def split_def)
  finally show ?thesis .
qed

lemma summarize_games:
  assumes "summarize rows = Inr summ" "s \<in> set summ"
  shows "games s = length (filter (\<lambda>r. opponent r = summary_opponent s) rows)"
proof -
  from summarize_member[OF assms] obtain k where
    "summary_row k (filter (\<lambda>r. opponent r = k) rows) = Inr s" by blast
  from summary_row_fields(1,2)[OF this] show ?thesis by simp
qed

lemma distinct_count_list: "distinct xs \<Longrightarrow> x \<in> set xs \<Longrightarrow> count_list xs x = 1"
  by (induction xs) (auto simp: count_list_0_iff)

text \<open>
  Claim C3, amended. When every match invocation succeeds (and the keys are roster keys,
  as the validation before the loop ensures), the scheduler returns, and its records follow
  \<open>schedule\<close>: opponents in input order, then maps in the given order, then rounds
  \<open>0..rounds-1\<close>, each with the side-0 record immediately followed by the side-1 record;
  the matches are invoked in that order with the candidate as first agent on side 0 and as
  second agent on side 1; \<open>match_index\<close> runs \<open>0,1,2,...\<close> in creation order. The number
  of records (and the summary's \<open>games\<close>) of an opponent key is
  \<open>2 * rounds * maps\<close> times the number of occurrences of the key in the input, hence
  \<open>2 * rounds * maps\<close> when no key is repeated (\<open>rounds\<close> counted as 0 when negative).
\<close>

theorem schedule_order_and_counts:
  assumes ok: "\<forall>n mp a b. \<exists>res. rm n mp a b = Inr res"
    and known: "set keys \<subseteq> fst ` set BENCHMARKS"
  shows "\<exists>st. play_opponents rm bc keys mps rounds init_state = Inr st \<and>
     map row_slot (all_rows st) = map slot_row (schedule keys mps rounds) \<and>
     filter is_run (trace st) = map (slot_run bc) (schedule keys mps rounds) \<and>
     map match_index (all_rows st) = map int [0..<length (all_rows st)] \<and>
     (\<forall>k. length (filter (\<lambda>r. opponent r = k) (all_rows st))
           = 2 * nat rounds * length mps * count_list keys k) \<and>
     (distinct keys \<longrightarrow> (\<forall>k \<in> set keys. length (filter (\<lambda>r. opponent r = k) (all_rows st))
           = 2 * nat rounds * length mps)) \<and>
     (\<forall>summ s. summarize (all_rows st) = Inr summ \<longrightarrow> s \<in> set summ \<longrightarrow>
           games s = 2 * nat rounds * length mps * count_list keys (summary_opponent s))"
proof -
  from play_opponents_succeeds[OF ok known] obtain st where
    st: "play_opponents rm bc keys mps rounds init_state = Inr st" by blast
  from play_opponents_appended[OF st] obtain new where n:
    "all_rows st = all_rows init_state @ new"
    "map row_slot new = map slot_row (schedule keys mps rounds)"
    "map match_index new = map (\<lambda>i. next_index init_state + int i) [0..<length (schedule keys mps rounds)]"
    "filter is_run (trace st) = filter is_run (trace init_state) @ map (slot_run bc) (schedule keys mps rounds)"
    unfolding appended_def by blast
  have rows: "all_rows st = new" using n(1) by (simp add: init_state_def)
  have slots: "map row_slot (all_rows st) = map slot_row (schedule keys mps rounds)"
    using n(2) rows by simp
  have len: "length (all_rows st) = length (schedule keys mps rounds)"
    using slots by (metis length_map)
  have idx: "map match_index (all_rows st) = map int [0..<length (all_rows st)]"
    using n(3) rows len by (simp add: init_state_def)
  have runs: "filter is_run (trace st) = map (slot_run bc) (schedule keys mps rounds)"
    using n(4) by (simp add: init_state_def)
  have cnt: "length (filter (\<lambda>r. opponent r = k) (all_rows st))
           = 2 * nat rounds * length mps * count_list keys k" for k
    using rows_count[OF slots] schedule_count by simp
  have dis: "length (filter (\<lambda>r. opponent r = k) (all_rows st)) = 2 * nat rounds * length mps"
    if "distinct keys" "k \<in> set keys" for k
    using cnt[of k] distinct_count_list[OF that] by simp
  have sm: "games s = 2 * nat rounds * length mps * count_list keys (summary_opponent s)"
    if "summarize (all_rows st) = Inr summ" "s \<in> set summ" for summ s
    using summarize_games[OF that] cnt by simp
  from st slots runs idx cnt dis sm show ?thesis by blast
qed

lemmas scheduler_eval =
  BENCHMARKS_def py_range_def play_round_def play_match_def Let_def outcome_state_def init_state_def
  candidate_wins_def outcome_a_def outcome_b_def result_score_def example_map_def invocations_def
  example_row0_def str_def

lemmas summarize_eval =
  summarize_def group_by_opp_def summary_row_def ebind_def int_truediv_def float_of_int_def rnd_def
  py_round_def to_double_small to_double_int[of 4, simplified] round_half_even_def str_def

lemma example_run_two_rounds:
  "all_rows (outcome_state (play_opponents candidate_wins (str ''alliBot.alli'') [str ''random'']
       [example_map] 2 init_state)) = example_rows4"
  by (simp add: scheduler_eval example_rows4_def numeral_2_eq_2)

lemma example_run_repeated_key:
  "all_rows (outcome_state (play_opponents candidate_wins (str ''alliBot.alli'')
       [str ''random'', str ''random''] [example_map] 1 init_state))
   = [example_row0,
      example_row0\<lparr>match_index := 1, alli_side := 1, row_winner := 1\<rparr>,
      example_row0\<lparr>match_index := 2\<rparr>,
      example_row0\<lparr>match_index := 3, alli_side := 1, row_winner := 1\<rparr>]"
  by (simp add: scheduler_eval)

lemma summarize_example_rows4: "summarize example_rows4 = Inr [example_summary4]"
  by (simp add: summarize_eval example_rows4_def example_row0_def example_summary4_def)

lemma summarize_repeated_key:
  "summarize [example_row0,
      example_row0\<lparr>match_index := 1, alli_side := 1, row_winner := 1\<rparr>,
      example_row0\<lparr>match_index := 2\<rparr>,
      example_row0\<lparr>match_index := 3, alli_side := 1, row_winner := 1\<rparr>] = Inr [example_summary4]"
  by (simp add: summarize_eval example_row0_def example_summary4_def)

theorem schedule_order_and_counts_witness:
  "(\<forall>n mp a b. \<exists>res. candidate_wins n mp a b = Inr res) \<and>
   set [str ''random''] \<subseteq> fst ` set BENCHMARKS \<and>
   (\<exists>st. play_opponents candidate_wins (str ''alliBot.alli'') [str ''random''] [example_map] 2 init_state
      = Inr st) \<and>
   all_rows (outcome_state (play_opponents candidate_wins (str ''alliBot.alli'') [str ''random'']
      [example_map] 2 init_state)) = example_rows4 \<and>
   map match_index example_rows4 = [0, 1, 2, 3] \<and>
   map alli_side example_rows4 = [0, 1, 0, 1] \<and>
   map round_idx example_rows4 = [0, 0, 1, 1] \<and>
   summarize example_rows4 = Inr [example_summary4] \<and>
   games example_summary4 = 4"
proof -
  have ok: "\<forall>n mp a b. \<exists>res. candidate_wins n mp a b = Inr res"
    by (simp add: candidate_wins_def)
  have known: "set [str ''random''] \<subseteq> fst ` set BENCHMARKS"
    by (simp add: BENCHMARKS_def)
  from schedule_order_and_counts[OF ok known, of "str ''alliBot.alli''" "[example_map]" 2]
  obtain st where st: "play_opponents candidate_wins (str ''alliBot.alli'') [str ''random''] [example_map] 2
      init_state = Inr st"
    and idx: "map match_index (all_rows st) = map int [0..<length (all_rows st)]"
    and sm: "\<forall>summ s. summarize (all_rows st) = Inr summ \<longrightarrow> s \<in> set summ \<longrightarrow>
           games s = 2 * nat 2 * length [example_map] * count_list [str ''random''] (summary_opponent s)"
    by blast
  have rows: "all_rows st = example_rows4"
    using example_run_two_rounds st by (simp add: outcome_state_def)
  have g: "games example_summary4 = 4"
    using sm summarize_example_rows4 rows by (simp add: example_summary4_def)
  have i: "map match_index example_rows4 = [0, 1, 2, 3]"
    using idx rows by (simp add: example_rows4_def upt_rec)
  have "map alli_side example_rows4 = [0, 1, 0, 1]" "map round_idx example_rows4 = [0, 0, 1, 1]"
    by (simp_all add: example_rows4_def example_row0_def)
  with ok known st example_run_two_rounds summarize_example_rows4 g i show ?thesis by blast
qed

theorem repeated_opponent_counterexample:
  "map opponent (all_rows (outcome_state (play_opponents candidate_wins (str ''alliBot.alli'')
       [str ''random'', str ''random''] [example_map] 1 init_state)))
     = [str ''random'', str ''random'', str ''random'', str ''random''] \<and>
   summarize (all_rows (outcome_state (play_opponents candidate_wins (str ''alliBot.alli'')
       [str ''random'', str ''random''] [example_map] 1 init_state))) = Inr [example_summary4] \<and>
   games example_summary4 = 4 \<and>
   games example_summary4 \<noteq> 2 * nat 1 * length [example_map]"
  unfolding example_run_repeated_key summarize_repeated_key
  by (simp add: example_summary4_def example_row0_def)

lemma summary_row_mset:
  assumes "mset items = mset items'"
  shows "summary_row k items = summary_row k items'"
proof -
  have f: "length (filter P items) = length (filter P items')" for P :: "match_record \<Rightarrow> bool"
    using assms by (metis mset_filter size_mset)
  have l: "length items = length items'"
    using assms by (metis size_mset)
  have s: "sum_list (map row_cycles items) = sum_list (map row_cycles items')"
    using assms by (metis mset_map sum_mset_sum_list)
  show ?thesis
    unfolding summary_row_def f l s ..
qed

lemma group_as_map:
  "group_by_opp rows =
     map (\<lambda>k. (k, filter (\<lambda>r. opponent r = k) rows)) (map fst (group_by_opp rows))"
proof -
  have "map (\<lambda>g. (fst g, filter (\<lambda>r. opponent r = fst g) rows)) (group_by_opp rows)
        = map (\<lambda>g. g) (group_by_opp rows)"
  proof (rule map_cong[OF refl])
    fix g assume "g \<in> set (group_by_opp rows)"
    then have "(fst g, snd g) \<in> set (group_by_opp rows)" by simp
    from group_member[OF this] show "(fst g, filter (\<lambda>r. opponent r = fst g) rows) = g"
      by (metis prod.collapse)
  qed
  then show ?thesis by (simp add: comp_def)
qed

lemma summary_rows_map:
  "summary_rows (map (\<lambda>k. (k, G k)) ks) =
     (if \<forall>k \<in> set ks. \<exists>s. summary_row k (G k) = Inr s
      then Inr (map (\<lambda>k. projr (summary_row k (G k))) ks)
      else Inl OverflowError)"
proof (induction ks)
  case Nil
  then show ?case by simp
next
  case (Cons k ks)
  show ?case
  proof (cases "summary_row k (G k)")
    case (Inl e)
    then have "e = OverflowError" by (rule summary_row_error)
    with Inl show ?thesis by (simp add: ebind_def)
  next
    case (Inr s)
    with Cons.IH show ?thesis by (simp add: ebind_def)
  qed
qed

lemma summarize_canonical:
  "summarize rows =
     (if \<forall>k \<in> opponent ` set rows. \<exists>s. summary_row k (filter (\<lambda>r. opponent r = k) rows) = Inr s
      then Inr (sort_key summary_opponent
             (map (\<lambda>k. projr (summary_row k (filter (\<lambda>r. opponent r = k) rows)))
                (map fst (group_by_opp rows))))
      else Inl OverflowError)"
proof -
  have k: "set (map fst (group_by_opp rows)) = opponent ` set rows"
    using group_keys by blast
  have "summarize rows =
      ebind (summary_rows (map (\<lambda>k. (k, filter (\<lambda>r. opponent r = k) rows)) (map fst (group_by_opp rows))))
        (\<lambda>summary. Inr (sort_key summary_opponent summary))"
    unfolding summarize_def by (subst group_as_map) (rule refl)
  then show ?thesis
    unfolding summary_rows_map k by (simp add: ebind_def)
qed

lemma sort_rows_by_key:
  assumes "distinct ks" "distinct ks'" "set ks = set ks'"
    and "\<And>k. k \<in> set ks \<Longrightarrow> summary_opponent (g k) = k"
  shows "sort_key summary_opponent (map g ks) = sort_key summary_opponent (map g ks')"
proof (rule sort_key_inj_key_eq)
  have "mset ks = mset ks'" using assms(1-3) by (simp add: set_eq_iff_mset_eq_distinct)
  then show "mset (map g ks) = mset (sort_key summary_opponent (map g ks'))"
    by (metis mset_map mset_sort)
  show "inj_on summary_opponent (set (map g ks))"
    using assms(4) by (auto simp: inj_on_def)
  show "sorted (map summary_opponent (sort_key summary_opponent (map g ks')))"
    by (rule sorted_sort_key)
qed

lemma summarize_mset:
  assumes "mset rows = mset rows'"
  shows "summarize rows = summarize rows'"
proof -
  have f: "summary_row k (filter (\<lambda>r. opponent r = k) rows)
         = summary_row k (filter (\<lambda>r. opponent r = k) rows')" for k
    by (rule summary_row_mset) (simp only: mset_filter assms)
  have s: "opponent ` set rows = opponent ` set rows'"
    using assms by (metis mset_eq_setD)
  let ?ok = "\<lambda>rs. \<forall>k \<in> opponent ` set rs. \<exists>x. summary_row k (filter (\<lambda>r. opponent r = k) rs) = Inr x"
  have ok: "?ok rows' \<longleftrightarrow> ?ok rows" unfolding f s ..
  show ?thesis
  proof (cases "?ok rows")
    case False
    then have "\<not> ?ok rows'" using ok by blast
    then have "summarize rows' = Inl OverflowError"
      by (simp only: summarize_canonical[of rows'] if_not_P if_False)
    moreover from False have "summarize rows = Inl OverflowError"
      by (simp only: summarize_canonical[of rows] if_not_P if_False)
    ultimately show ?thesis by simp
  next
    case True
    then have True': "?ok rows'" using ok by blast
    define g where "g k = projr (summary_row k (filter (\<lambda>r. opponent r = k) rows))" for k
    have g': "g = (\<lambda>k. projr (summary_row k (filter (\<lambda>r. opponent r = k) rows')))"
      by (rule ext) (simp add: g_def f)
    have key: "summary_opponent (g k) = k" if "k \<in> set (map fst (group_by_opp rows))" for k
    proof -
      from that have "k \<in> opponent ` set rows" using group_keys[of rows] by simp
      with True obtain x where x: "summary_row k (filter (\<lambda>r. opponent r = k) rows) = Inr x" by blast
      then have "g k = x" by (simp add: g_def)
      with summary_row_fields(1)[OF x] show ?thesis by simp
    qed
    have e: "sort_key summary_opponent (map g (map fst (group_by_opp rows)))
        = sort_key summary_opponent (map g (map fst (group_by_opp rows')))"
      by (rule sort_rows_by_key) (use group_keys[of rows] group_keys[of rows'] s key in simp_all)
    have "summarize rows = Inr (sort_key summary_opponent (map g (map fst (group_by_opp rows))))"
      using True unfolding g_def by (simp only: summarize_canonical[of rows] if_P if_True)
    moreover have "summarize rows' = Inr (sort_key summary_opponent (map g (map fst (group_by_opp rows'))))"
      using True' unfolding g' by (simp only: summarize_canonical[of rows'] if_P if_True)
    ultimately show ?thesis using e by simp
  qed
qed

lemma summarize_keys:
  assumes "summarize rows = Inr summ"
  shows "distinct (map summary_opponent summ) \<and> set (map summary_opponent summ) = opponent ` set rows \<and>
         sorted (map summary_opponent summ)"
proof -
  from assms obtain summary where a: "summary_rows (group_by_opp rows) = Inr summary"
    and b: "summ = sort_key summary_opponent summary"
    by (auto simp: summarize_def ebind_Inr_iff)
  have "map summary_opponent summary = map fst (group_by_opp rows)"
    using summary_rows_Inr[OF a]
    by (induction rule: list_all2_induct) (simp_all add: summary_row_fields(1))
  with group_keys[of rows] have d: "distinct (map summary_opponent summary)"
    and s: "set (map summary_opponent summary) = opponent ` set rows" by simp_all
  have "mset (map summary_opponent summ) = mset (map summary_opponent summary)"
    by (simp add: b)
  with d have "distinct (map summary_opponent summ)"
    by (metis mset_eq_imp_distinct_iff) 
  moreover have "set (map summary_opponent summ) = opponent ` set rows"
    using s by (simp add: b)
  moreover have "sorted (map summary_opponent summ)"
    unfolding b by (rule sorted_sort_key)
  ultimately show ?thesis by blast
qed

lemma summarize_two_opponents:
  "summarize [example_row0, example_row_coac] = Inr [example_summary_coac, example_summary_random]"
  by (simp add: summarize_eval to_double_int[of 5000, simplified] example_row0_def example_row_coac_def
      example_summary_random_def example_summary_coac_def)

text \<open>
  Claim C8. \<open>summarize\<close> is a function of the multiset of its input records: two lists
  with the same records in any order give the same result. Its rows carry pairwise distinct
  opponent keys, exactly the keys that occur in the input, in ascending order (the order of
  Python strings).
\<close>

theorem summarize_order_independent:
  assumes "mset rows = mset rows'"
  shows "summarize rows = summarize rows' \<and>
     (\<forall>summ. summarize rows = Inr summ \<longrightarrow>
        distinct (map summary_opponent summ) \<and>
        set (map summary_opponent summ) = opponent ` set rows \<and>
        sorted (map summary_opponent summ))"
  using summarize_mset[OF assms] summarize_keys[of rows] by blast

theorem summarize_order_independent_witness:
  "mset [example_row0, example_row_coac] = mset [example_row_coac, example_row0] \<and>
   summarize [example_row0, example_row_coac] = Inr [example_summary_coac, example_summary_random] \<and>
   summarize [example_row_coac, example_row0] = Inr [example_summary_coac, example_summary_random] \<and>
   map summary_opponent [example_summary_coac, example_summary_random] = [str ''coac'', str ''random''] \<and>
   str ''coac'' < str ''random''"
proof -
  have m: "mset [example_row0, example_row_coac] = mset [example_row_coac, example_row0]"
    by (simp add: add_mset_commute)
  have o: "map summary_opponent [example_summary_coac, example_summary_random] = [str ''coac'', str ''random'']"
    by (simp add: example_summary_random_def example_summary_coac_def)
  have l: "str ''coac'' < str ''random''" by (simp add: str_def)
  from summarize_order_independent[OF m] summarize_two_opponents m o l
  show ?thesis by simp
qed

section \<open>Properties of the archive builder\<close>







end
